theory Spec2Isabelle
  imports Main "HOL-Library.Word"
begin

unbundle bit_operations_syntax

section \<open>Frame layout\<close>

text \<open>
  The acquisition scripts \<^verbatim>\<open>daqMonitor.py\<close> and \<^verbatim>\<open>monitor.py\<close> fix the frame
  layout by module-level constants. The model collects them in a record that every
  operation takes as its first argument, so that the same definitions cover the
  configuration of the scripts (\<open>DT5560\<close> below) and any other one.
  \<^verbatim>\<open>
  CHANNELS = 32
  WAVE_LEN = 40
  EVENT_HEADER_WORDS = 16
  WORDS_PER_SAMPLE = 16  # = 32 canales / 2
  EVENT_WORDS = EVENT_HEADER_WORDS + WORDS_PER_SAMPLE * WAVE_LEN
  FIFO_CHUNK = EVENT_WORDS * 2
  \<close>
\<close>

record layout =
  CHANNELS :: nat
  WAVE_LEN :: nat
  EVENT_HEADER_WORDS :: nat
  WORDS_PER_SAMPLE :: nat

definition EVENT_WORDS :: "layout \<Rightarrow> nat" where
  "EVENT_WORDS L = EVENT_HEADER_WORDS L + WORDS_PER_SAMPLE L * WAVE_LEN L"

definition FIFO_CHUNK :: "layout \<Rightarrow> nat" where
  "FIFO_CHUNK L = EVENT_WORDS L * 2"

definition DT5560 :: layout where
  "DT5560 = \<lparr>CHANNELS = 32, WAVE_LEN = 40, EVENT_HEADER_WORDS = 16, WORDS_PER_SAMPLE = 16\<rparr>"

section \<open>Arrays and exceptions\<close>

text \<open>
  The exceptions that indexing and \<^verbatim>\<open>np.frombuffer\<close> can raise are values:
  a computation returns \<open>Inl e\<close> where the Python raises \<open>e\<close>.
\<close>

datatype error = IndexError | ValueError

type_synonym u32 = "32 word"
type_synonym u16 = "16 word"

text \<open>A \<^verbatim>\<open>uint16\<close> array of two dimensions, as the list of its rows.\<close>

type_synonym waves = "u16 list list"

definition np_zeros :: "nat \<Rightarrow> nat \<Rightarrow> waves" where
  "np_zeros rows cols = replicate rows (replicate cols 0)"

text \<open>\<^verbatim>\<open>xs[i]\<close> for an index that is not negative.\<close>

definition getitem :: "'a list \<Rightarrow> nat \<Rightarrow> error + 'a" where
  "getitem xs i = (if i < length xs then Inr (xs ! i) else Inl IndexError)"

text \<open>\<^verbatim>\<open>waves[ch, i] = v\<close> for indices that are not negative.\<close>

definition setitem2 :: "waves \<Rightarrow> nat \<Rightarrow> nat \<Rightarrow> u16 \<Rightarrow> error + waves" where
  "setitem2 w ch i v =
     (if ch < length w \<and> i < length (w ! ch)
      then Inr (w[ch := (w ! ch)[i := v]])
      else Inl IndexError)"

section \<open>The decoder\<close>

text \<open>
  \<^verbatim>\<open>
  def decode_event(event):
      wave_data = event[EVENT_HEADER_WORDS:]
      waves = np.zeros((CHANNELS, WAVE_LEN), dtype=np.uint16)
      idx = 0
      for i in range(WAVE_LEN):
          for pair in range(WORDS_PER_SAMPLE):
              if idx >= len(wave_data):
                  break
              word = wave_data[idx]
              chA = pair * 2
              chB = pair * 2 + 1
              if chA < CHANNELS:
                  waves[chA, i] = word & 0xFFFF
              if chB < CHANNELS:
                  waves[chB, i] = (word >> 16) & 0xFFFF
              idx += 1
      return waves
  \<close>
  (the same text in both scripts). \<open>pair_body\<close> is the body of the inner loop after its \<^verbatim>\<open>break\<close> test,
  \<open>pair_loop\<close> the inner loop over the pairs that are left (the \<^verbatim>\<open>break\<close>
  leaves it with the state unchanged), \<open>sample_loop\<close> the outer loop. The state of
  the loops is the matrix and \<^verbatim>\<open>idx\<close>.
\<close>

definition pair_body :: "layout \<Rightarrow> u32 list \<Rightarrow> nat \<Rightarrow> nat \<Rightarrow> waves \<times> nat \<Rightarrow> error + waves \<times> nat" where
  "pair_body L wave_data i pair st =
     (case st of (waves, idx) \<Rightarrow>
        (case getitem wave_data idx of
           Inl e \<Rightarrow> Inl e
         | Inr word \<Rightarrow>
             (let chA = pair * 2; chB = pair * 2 + 1 in
              (case (if chA < CHANNELS L
                     then setitem2 waves chA i (ucast (word AND 0xFFFF))
                     else Inr waves) of
                 Inl e \<Rightarrow> Inl e
               | Inr waves1 \<Rightarrow>
                   (case (if chB < CHANNELS L
                          then setitem2 waves1 chB i (ucast (drop_bit 16 word AND 0xFFFF))
                          else Inr waves1) of
                      Inl e \<Rightarrow> Inl e
                    | Inr waves2 \<Rightarrow> Inr (waves2, idx + 1))))))"

fun pair_loop :: "layout \<Rightarrow> u32 list \<Rightarrow> nat \<Rightarrow> nat list \<Rightarrow> waves \<times> nat \<Rightarrow> error + waves \<times> nat" where
  "pair_loop L wave_data i [] st = Inr st"
| "pair_loop L wave_data i (pair # pairs) st =
     (if snd st \<ge> length wave_data then Inr st
      else (case pair_body L wave_data i pair st of
              Inl e \<Rightarrow> Inl e
            | Inr st' \<Rightarrow> pair_loop L wave_data i pairs st'))"

fun sample_loop :: "layout \<Rightarrow> u32 list \<Rightarrow> nat list \<Rightarrow> waves \<times> nat \<Rightarrow> error + waves \<times> nat" where
  "sample_loop L wave_data [] st = Inr st"
| "sample_loop L wave_data (i # samples) st =
     (case pair_loop L wave_data i [0..<WORDS_PER_SAMPLE L] st of
        Inl e \<Rightarrow> Inl e
      | Inr st' \<Rightarrow> sample_loop L wave_data samples st')"

definition decode_event :: "layout \<Rightarrow> u32 list \<Rightarrow> error + waves" where
  "decode_event L event =
     (let wave_data = drop (EVENT_HEADER_WORDS L) event;
          waves = np_zeros (CHANNELS L) (WAVE_LEN L)
      in (case sample_loop L wave_data [0..<WAVE_LEN L] (waves, 0) of
            Inl e \<Rightarrow> Inl e
          | Inr st \<Rightarrow> Inr (fst st)))"


section \<open>The transport\<close>

text \<open>
  \<^verbatim>\<open>ReadFifo\<close> (\<^verbatim>\<open>DT5560Digitizer_Functions.py\<close>) passes the buffer to the vendor
  library and returns its status code and the count of valid words:
  \<^verbatim>\<open>
  def ReadFifo(buffer, count, data_addr, status_addr, bus_mode, timeout_ms, handle):
      valid = c_uint32(0)
      err = mydll.NI_ReadFifo(buffer, c_uint32(count), ..., byref(handle), byref(valid))
      return err, valid.value
  \<close>
  The library and the device are outside the repository. A call is modelled by what it
  gives back: the status code, the valid count and the words the library stored from the
  start of the buffer. The device is any function from the number of the call to such a
  result.
\<close>

record fifo_read =
  err :: int
  valid :: nat
  delivered :: "u32 list"

type_synonym device = "nat \<Rightarrow> fifo_read"

text \<open>
  \<^verbatim>\<open>buf = (c_uint32 * FIFO_CHUNK)()\<close> after the call: \<open>n\<close> words, zero where the
  library stored nothing.
\<close>

definition c_uint32_array :: "nat \<Rightarrow> u32 list \<Rightarrow> u32 list" where
  "c_uint32_array n ws = take n ws @ replicate (n - length ws) 0"

text \<open>
  \<^verbatim>\<open>np.frombuffer(buf, dtype=np.uint32, count=valid)\<close> for a positive count: the first
  \<open>count\<close> words, and ValueError when the buffer has fewer.
\<close>

definition frombuffer :: "u32 list \<Rightarrow> nat \<Rightarrow> error + u32 list" where
  "frombuffer buf count = (if count > length buf then Inl ValueError else Inr (take count buf))"

section \<open>The word accumulator\<close>

text \<open>
  \<^verbatim>\<open>
  raw_words = []
  while len(raw_words) < EVENT_WORDS:
      buf = (c_uint32 * FIFO_CHUNK)()
      err, valid = ReadFifo(buf, FIFO_CHUNK, ..., 1, TIMEOUT_MS, handle)
      if valid == 0:
          time.sleep(0.0005)
          continue
      arr = np.frombuffer(buf, dtype=np.uint32, count=valid)
      raw_words.extend(arr.tolist())
  \<close>
  The state of the loop is the number of \<^verbatim>\<open>ReadFifo\<close> calls made so far, the number
  of \<^verbatim>\<open>time.sleep\<close> calls made so far and \<^verbatim>\<open>raw_words\<close>. The loop need not end:
  \<open>None\<close> is the run that never leaves it.
\<close>

partial_function (option) accumulate ::
  "layout \<Rightarrow> device \<Rightarrow> nat \<Rightarrow> nat \<Rightarrow> u32 list \<Rightarrow> (error + u32 list \<times> nat \<times> nat) option" where
  "accumulate L dev calls sleeps raw_words =
     (if length raw_words < EVENT_WORDS L then
        (let r = dev calls;
             buf = c_uint32_array (FIFO_CHUNK L) (delivered r)
         in if valid r = 0 then accumulate L dev (calls + 1) (sleeps + 1) raw_words
            else (case frombuffer buf (valid r) of
                    Inl e \<Rightarrow> Some (Inl e)
                  | Inr arr \<Rightarrow> accumulate L dev (calls + 1) sleeps (raw_words @ arr)))
      else Some (Inr (raw_words, calls, sleeps)))"

section \<open>The frame synchronizer\<close>

text \<open>
  \<^verbatim>\<open>
  data = np.array(raw_words, dtype=np.uint32)
  hdr = np.where(data == 0xFFFFFFFF)[0]
  if hdr.size == 0:
      print("Event without header. Ignored.")
      continue
  idx = hdr[0]
  if idx + EVENT_WORDS > len(data):
      print("Event not completed. Ignored.")
      continue
  event = data[idx: idx + EVENT_WORDS]
  \<close>
  \<open>find_event\<close> is this part of the loop body: the message of the branch that skips the
  event, or the slice. (\<^verbatim>\<open>monitor.py\<close> has the same code and prints
  \<^verbatim>\<open>event corrupted\<close> in both branches.)
\<close>

datatype message = NoHeader | NotCompleted

definition np_where_eq :: "u32 list \<Rightarrow> u32 \<Rightarrow> nat list" where
  "np_where_eq data v = filter (\<lambda>k. data ! k = v) [0..<length data]"

definition find_event :: "layout \<Rightarrow> u32 list \<Rightarrow> message + u32 list" where
  "find_event L data =
     (let hdr = np_where_eq data 0xFFFFFFFF in
      if length hdr = 0 then Inl NoHeader
      else (let idx = hdr ! 0 in
            if idx + EVENT_WORDS L > length data then Inl NotCompleted
            else Inr (take (EVENT_WORDS L) (drop idx data))))"

section \<open>The acquisition loop\<close>

text \<open>
  \<^verbatim>\<open>
  for iev in range(N_EVENTS):
      start_digitizer()
      raw_words = [] ... (the accumulator)
      data = np.array(raw_words, dtype=np.uint32)
      ... (the synchronizer; continue when the event is skipped)
      waves = decode_event(event)
      wave_array[:, :] = waves
      ...
      tree.Fill()
  \<close>
  The state of the run keeps the calls and sleeps of the
  accumulator, the matrices given to \<^verbatim>\<open>tree.Fill\<close> and the messages printed for
  skipped events. The register writes of \<^verbatim>\<open>start_digitizer\<close>, whose status the
  scripts do not read, the progress lines, the histograms and the canvas are left out.
\<close>

record acq_state =
  fifo_calls :: nat
  slept :: nat
  tree :: "waves list"
  printed :: "message list"

text \<open>The loop body from \<^verbatim>\<open>data = np.array(raw_words, ...)\<close> on.\<close>

definition handle_data :: "layout \<Rightarrow> acq_state \<Rightarrow> u32 list \<Rightarrow> error + acq_state" where
  "handle_data L st data =
     (case find_event L data of
        Inl m \<Rightarrow> Inr (st\<lparr>printed := printed st @ [m]\<rparr>)
      | Inr event \<Rightarrow>
          (case decode_event L event of
             Inl e \<Rightarrow> Inl e
           | Inr waves \<Rightarrow> Inr (st\<lparr>tree := tree st @ [waves]\<rparr>)))"

definition event_body :: "layout \<Rightarrow> device \<Rightarrow> acq_state \<Rightarrow> (error + acq_state) option" where
  "event_body L dev st =
     (case accumulate L dev (fifo_calls st) (slept st) [] of
        None \<Rightarrow> None
      | Some (Inl e) \<Rightarrow> Some (Inl e)
      | Some (Inr (raw_words, calls, sleeps)) \<Rightarrow>
          Some (handle_data L (st\<lparr>fifo_calls := calls, slept := sleeps\<rparr>) raw_words))"

text \<open>The \<^verbatim>\<open>for\<close> loop, with the number of events that are left.\<close>

fun acq_loop :: "layout \<Rightarrow> device \<Rightarrow> nat \<Rightarrow> acq_state \<Rightarrow> (error + acq_state) option" where
  "acq_loop L dev 0 st = Some (Inr st)"
| "acq_loop L dev (Suc n) st =
     (case event_body L dev st of
        None \<Rightarrow> None
      | Some (Inl e) \<Rightarrow> Some (Inl e)
      | Some (Inr st') \<Rightarrow> acq_loop L dev n st')"


section \<open>Notions used in the statements\<close>

text \<open>
  The half of a payload word that belongs to channel \<open>ch\<close>: the low 16 bits for an
  even channel, the high 16 bits for an odd one.
\<close>

definition half_of :: "nat \<Rightarrow> u32 \<Rightarrow> u16" where
  "half_of ch word =
     (if even ch then ucast (word AND 0xFFFF) else ucast (drop_bit 16 word AND 0xFFFF))"

text \<open>A matrix of \<open>CHANNELS\<close> rows of \<open>WAVE_LEN\<close> cells.\<close>

definition shaped :: "layout \<Rightarrow> waves \<Rightarrow> bool" where
  "shaped L w \<longleftrightarrow> length w = CHANNELS L \<and> list_all (\<lambda>row. length row = WAVE_LEN L) w"

text \<open>
  The cell of channel \<open>ch\<close> at sample \<open>j\<close> once the outer loop has run for the
  samples below \<open>n\<close> over the payload \<open>wd\<close>: the half of payload word
  \<open>j * WORDS_PER_SAMPLE + ch div 2\<close> when the loops reach that word, zero otherwise.
\<close>

definition cell :: "layout \<Rightarrow> u32 list \<Rightarrow> nat \<Rightarrow> nat \<Rightarrow> nat \<Rightarrow> u16" where
  "cell L wd n ch j =
     (if j < n \<and> ch div 2 < WORDS_PER_SAMPLE L \<and> j * WORDS_PER_SAMPLE L + ch div 2 < length wd
      then half_of ch (wd ! (j * WORDS_PER_SAMPLE L + ch div 2)) else 0)"

text \<open>
  A layout with an odd number of channels, fewer than two per word of a group: the
  bound checks of the decoder decide what is written.
\<close>

definition small_layout :: layout where
  "small_layout = \<lparr>CHANNELS = 3, WAVE_LEN = 2, EVENT_HEADER_WORDS = 1, WORDS_PER_SAMPLE = 2\<rparr>"

text \<open>
  The words that the loop takes from call \<open>k\<close> of \<^verbatim>\<open>ReadFifo\<close>: the first
  \<open>valid\<close> words of the buffer.
\<close>

definition valid_words :: "layout \<Rightarrow> device \<Rightarrow> nat \<Rightarrow> u32 list" where
  "valid_words L dev k = take (valid (dev k)) (c_uint32_array (FIFO_CHUNK L) (delivered (dev k)))"

text \<open>The state in which the acquisition loop starts.\<close>

definition start_state :: acq_state where
  "start_state = \<lparr>fifo_calls = 0, slept = 0, tree = [], printed = []\<rparr>"

text \<open>
  Devices for the layout of the scripts (chunks of 1312 words). The first delivers, at
  every call, a full chunk whose only header is at offset 1000; the second a full
  chunk without a header; the third 400 valid words at every call; the fourth nothing
  at the even calls and a full chunk at the odd ones; the last reports a failure with
  no valid word at the first call and delivers full chunks afterwards.
\<close>

definition late_header_device :: device where
  "late_header_device k =
     \<lparr>err = 0, valid = 1312, delivered = replicate 1000 0 @ 0xFFFFFFFF # replicate 311 0\<rparr>"

definition no_header_device :: device where
  "no_header_device k = \<lparr>err = 0, valid = 1312, delivered = replicate 1312 0\<rparr>"

definition partial_device :: device where
  "partial_device k = \<lparr>err = 0, valid = 400, delivered = replicate 500 (of_nat k + 1)\<rparr>"

definition alternating_device :: device where
  "alternating_device k =
     (if even k then \<lparr>err = 0, valid = 0, delivered = []\<rparr>
      else \<lparr>err = 0, valid = 1312, delivered = 0xFFFFFFFF # replicate 1311 0\<rparr>)"

definition failing_device :: device where
  "failing_device k =
     (if k = 0 then \<lparr>err = - 1, valid = 0, delivered = []\<rparr>
      else \<lparr>err = 0, valid = 1312, delivered = 0xFFFFFFFF # replicate 1311 0\<rparr>)"

section \<open>The decoder: what each cell holds\<close>

lemma shaped_iff:
  "shaped L w \<longleftrightarrow> length w = CHANNELS L \<and> (\<forall>ch<CHANNELS L. length (w ! ch) = WAVE_LEN L)"
  by (auto simp: shaped_def list_all_length)


lemma pair_body_ok:
  assumes sh: "shaped L w" and i: "i < WAVE_LEN L" and idx: "idx < length wd"
  shows "\<exists>w'. pair_body L wd i a (w, idx) = Inr (w', idx + 1) \<and> shaped L w' \<and>
           (\<forall>ch<CHANNELS L. \<forall>j<WAVE_LEN L.
              w' ! ch ! j = (if j = i \<and> ch div 2 = a then half_of ch (wd ! idx) else w ! ch ! j))"
proof -
  define w1 where "w1 = (if a * 2 < CHANNELS L then w[a * 2 := (w ! (a * 2))[i := ucast (wd ! idx AND 0xFFFF)]] else w)"
  define w2 where "w2 = (if a * 2 + 1 < CHANNELS L then w1[a * 2 + 1 := (w1 ! (a * 2 + 1))[i := ucast (drop_bit 16 (wd ! idx) AND 0xFFFF)]] else w1)"
  have sh1: "shaped L w1"
    using sh by (auto simp: w1_def shaped_iff nth_list_update)
  have sh2: "shaped L w2"
    using sh1 by (auto simp: w2_def shaped_iff nth_list_update)
  have run: "pair_body L wd i a (w, idx) = Inr (w2, idx + 1)"
    using sh sh1 i idx
    by (simp add: pair_body_def getitem_def setitem2_def Let_def w1_def w2_def shaped_iff)
  have cells: "w2 ! ch ! j = (if j = i \<and> ch div 2 = a then half_of ch (wd ! idx) else w ! ch ! j)"
    if "ch < CHANNELS L" "j < WAVE_LEN L" for ch j
  proof -
    have c1: "w1 ! ch ! j = (if j = i \<and> ch = a * 2 then ucast (wd ! idx AND 0xFFFF) else w ! ch ! j)"
      using sh that i by (auto simp: w1_def shaped_iff nth_list_update)
    have c2: "w2 ! ch ! j = (if j = i \<and> ch = a * 2 + 1 then ucast (drop_bit 16 (wd ! idx) AND 0xFFFF) else w1 ! ch ! j)"
      using sh1 that i by (auto simp: w2_def shaped_iff nth_list_update)
    have e: "ch div 2 = a \<longleftrightarrow> ch = a * 2 \<or> ch = a * 2 + 1" by presburger
    show ?thesis
      unfolding c2 c1 e half_of_def by auto
  qed
  show ?thesis using run sh2 cells by blast
qed


lemma pair_loop_ok:
  assumes "shaped L w" and "i < WAVE_LEN L" and "a \<le> b"
  shows "\<exists>w'. pair_loop L wd i [a..<b] (w, idx) = Inr (w', idx + min (b - a) (length wd - idx)) \<and>
           shaped L w' \<and>
           (\<forall>ch<CHANNELS L. \<forall>j<WAVE_LEN L.
              w' ! ch ! j =
                (if j = i \<and> a \<le> ch div 2 \<and> ch div 2 < a + min (b - a) (length wd - idx)
                 then half_of ch (wd ! (idx + (ch div 2 - a))) else w ! ch ! j))"
  using assms
proof (induction "b - a" arbitrary: a w idx)
  case 0
  then show ?case by auto
next
  case (Suc n)
  then have ab: "a < b" and n: "n = b - Suc a" and le: "Suc a \<le> b" by simp_all
  have upt: "[a..<b] = a # [Suc a..<b]" using ab by (simp add: upt_conv_Cons)
  show ?case
  proof (cases "idx < length wd")
    case False
    then show ?thesis using Suc.prems(1) by (auto simp: upt)
  next
    case True
    from pair_body_ok [OF Suc.prems(1) Suc.prems(2) True, of a]
    obtain w1 where b1: "pair_body L wd i a (w, idx) = Inr (w1, idx + 1)"
      and sh1: "shaped L w1"
      and c1: "\<And>ch j. ch < CHANNELS L \<Longrightarrow> j < WAVE_LEN L \<Longrightarrow>
                 w1 ! ch ! j = (if j = i \<and> ch div 2 = a then half_of ch (wd ! idx) else w ! ch ! j)"
      by blast
    from Suc.hyps(1) [OF n sh1 Suc.prems(2) le, of "idx + 1"]
    obtain w2 where l2: "pair_loop L wd i [Suc a..<b] (w1, idx + 1)
                           = Inr (w2, idx + 1 + min (b - Suc a) (length wd - (idx + 1)))"
      and sh2: "shaped L w2"
      and c2: "\<And>ch j. ch < CHANNELS L \<Longrightarrow> j < WAVE_LEN L \<Longrightarrow>
                 w2 ! ch ! j =
                   (if j = i \<and> Suc a \<le> ch div 2 \<and> ch div 2 < Suc a + min (b - Suc a) (length wd - (idx + 1))
                    then half_of ch (wd ! (idx + 1 + (ch div 2 - Suc a))) else w1 ! ch ! j)"
      by blast
    have m: "idx + 1 + min (b - Suc a) (length wd - (idx + 1)) = idx + min (b - a) (length wd - idx)"
      using True ab by linarith
    have run: "pair_loop L wd i [a..<b] (w, idx) = Inr (w2, idx + min (b - a) (length wd - idx))"
      using True b1 l2 m by (simp add: upt)
    have cells: "w2 ! ch ! j =
                (if j = i \<and> a \<le> ch div 2 \<and> ch div 2 < a + min (b - a) (length wd - idx)
                 then half_of ch (wd ! (idx + (ch div 2 - a))) else w ! ch ! j)"
      if "ch < CHANNELS L" "j < WAVE_LEN L" for ch j
    proof (cases "ch div 2 = a")
      case True
      then show ?thesis using c2 [OF that] c1 [OF that] \<open>idx < length wd\<close> ab by (simp add: min_def)
    next
      case False
      have idx_eq: "Suc a \<le> ch div 2 \<Longrightarrow> idx + 1 + (ch div 2 - Suc a) = idx + (ch div 2 - a)"
        by simp
      have "c \<noteq> a \<Longrightarrow> (Suc a \<le> c \<and> c < Suc a + min (b - Suc a) (length wd - (idx + 1)))
                 \<longleftrightarrow> (a \<le> c \<and> c < a + min (b - a) (length wd - idx))" for c
        using \<open>idx < length wd\<close> ab by arith
      from this [OF False]
      have rng: "(Suc a \<le> ch div 2 \<and> ch div 2 < Suc a + min (b - Suc a) (length wd - (idx + 1)))
                 \<longleftrightarrow> (a \<le> ch div 2 \<and> ch div 2 < a + min (b - a) (length wd - idx))" .
      show ?thesis using c2 [OF that] c1 [OF that] False rng idx_eq by auto
    qed
    show ?thesis using run sh2 cells by blast
  qed
qed


lemma sample_loop_append:
  "sample_loop L wd (xs @ ys) st =
     (case sample_loop L wd xs st of Inl e \<Rightarrow> Inl e | Inr st' \<Rightarrow> sample_loop L wd ys st')"
  by (induction xs arbitrary: st) (auto split: sum.splits)

lemma sample_loop_ok:
  assumes "n \<le> WAVE_LEN L"
  shows "\<exists>w'. sample_loop L wd [0..<n] (np_zeros (CHANNELS L) (WAVE_LEN L), 0)
                 = Inr (w', min (n * WORDS_PER_SAMPLE L) (length wd)) \<and>
           shaped L w' \<and>
           (\<forall>ch<CHANNELS L. \<forall>j<WAVE_LEN L. w' ! ch ! j = cell L wd n ch j)"
  using assms
proof (induction n)
  case 0
  then show ?case by (simp add: shaped_iff cell_def np_zeros_def)
next
  case (Suc n)
  let ?P = "WORDS_PER_SAMPLE L"
  let ?idx = "min (n * ?P) (length wd)"
  from Suc obtain w where
      r: "sample_loop L wd [0..<n] (np_zeros (CHANNELS L) (WAVE_LEN L), 0) = Inr (w, ?idx)"
    and sh: "shaped L w"
    and c: "\<And>ch j. ch < CHANNELS L \<Longrightarrow> j < WAVE_LEN L \<Longrightarrow> w ! ch ! j = cell L wd n ch j"
    by auto
  have n: "n < WAVE_LEN L" using Suc.prems by simp
  let ?m = "min (?P - 0) (length wd - ?idx)"
  from pair_loop_ok [OF sh n, of 0 ?P wd ?idx]
  obtain w' where
      r': "pair_loop L wd n [0..<?P] (w, ?idx) = Inr (w', ?idx + ?m)"
    and sh': "shaped L w'"
    and c': "\<And>ch j. ch < CHANNELS L \<Longrightarrow> j < WAVE_LEN L \<Longrightarrow>
               w' ! ch ! j = (if j = n \<and> 0 \<le> ch div 2 \<and> ch div 2 < 0 + ?m
                              then half_of ch (wd ! (?idx + (ch div 2 - 0))) else w ! ch ! j)"
    by blast
  have ar1: "min k l + min (p - 0) (l - min k l) = min (p + k) l" for k l p :: nat
    by arith
  have ar2: "c < min (p - 0) (l - min k l) \<longleftrightarrow> c < p \<and> k + c < l" for c k l p :: nat
    by arith
  have ar3: "c < min (p - 0) (l - min k l) \<Longrightarrow> min k l + c = k + c" for c k l p :: nat
    by arith
  have idx': "?idx + ?m = min (Suc n * ?P) (length wd)"
    using ar1 [of "n * ?P" "length wd" ?P] by simp
  have run: "sample_loop L wd [0..<Suc n] (np_zeros (CHANNELS L) (WAVE_LEN L), 0)
               = Inr (w', min (Suc n * ?P) (length wd))"
    using r r' idx' by (simp add: sample_loop_append)
  have cells: "w' ! ch ! j = cell L wd (Suc n) ch j" if "ch < CHANNELS L" "j < WAVE_LEN L" for ch j
  proof (cases "j = n")
    case False
    then show ?thesis using c' [OF that] c [OF that] by (auto simp: cell_def)
  next
    case True
    let ?c = "ch div 2"
    have in_m: "?c < ?m \<longleftrightarrow> ?c < ?P \<and> n * ?P + ?c < length wd"
      by (rule ar2)
    have step: "w' ! ch ! j = (if j = n \<and> ?c < ?m then half_of ch (wd ! (?idx + ?c)) else w ! ch ! j)"
      using c' [OF that] by simp
    show ?thesis
    proof (cases "?c < ?m")
      case True
      have "?idx + ?c = n * ?P + ?c" using True by (rule ar3)
      moreover from True \<open>j = n\<close> have "j = n \<and> ?c < ?m" by blast
      then have "w' ! ch ! j = half_of ch (wd ! (?idx + ?c))"
        unfolding step by (rule if_P)
      moreover from True in_m \<open>j = n\<close>
      have "j < Suc n \<and> ?c < ?P \<and> j * ?P + ?c < length wd" by blast
      then have "cell L wd (Suc n) ch j = half_of ch (wd ! (j * ?P + ?c))"
        unfolding cell_def by (rule if_P)
      ultimately show ?thesis using \<open>j = n\<close> by simp
    next
      case False
      from False have "\<not> (j = n \<and> ?c < ?m)" by blast
      then have "w' ! ch ! j = w ! ch ! j"
        unfolding step by (rule if_not_P)
      moreover have "w ! ch ! j = 0"
        using c [OF that] \<open>j = n\<close> by (simp add: cell_def)
      moreover from False in_m \<open>j = n\<close>
      have "\<not> (j < Suc n \<and> ?c < ?P \<and> j * ?P + ?c < length wd)" by blast
      then have "cell L wd (Suc n) ch j = 0"
        unfolding cell_def by (rule if_not_P)
      ultimately show ?thesis by simp
    qed
  qed
  show ?case using run sh' cells by blast
qed

lemma decode_event_cells:
  "\<exists>w. decode_event L event = Inr w \<and> shaped L w \<and>
     (\<forall>ch<CHANNELS L. \<forall>j<WAVE_LEN L.
        w ! ch ! j = cell L (drop (EVENT_HEADER_WORDS L) event) (WAVE_LEN L) ch j)"
proof -
  from sample_loop_ok [of "WAVE_LEN L" L "drop (EVENT_HEADER_WORDS L) event"]
  obtain w k where "sample_loop L (drop (EVENT_HEADER_WORDS L) event) [0..<WAVE_LEN L]
                    (np_zeros (CHANNELS L) (WAVE_LEN L), 0) = Inr (w, k)"
    and "shaped L w"
    and "\<forall>ch<CHANNELS L. \<forall>j<WAVE_LEN L.
           w ! ch ! j = cell L (drop (EVENT_HEADER_WORDS L) event) (WAVE_LEN L) ch j"
    by blast
  then show ?thesis by (simp add: decode_event_def)
qed


lemma low_half:
  "ucast ((ucast (lo :: u16) OR push_bit 16 (ucast (hi :: u16)) :: u32) AND 0xFFFF) = lo"
proof -
  have m: "(0xFFFF :: u32) = mask 16" by (simp add: mask_eq_exp_minus_1)
  show ?thesis unfolding m
    by (rule bit_word_eqI) (auto simp: bit_simps)
qed

lemma high_half:
  "ucast (drop_bit 16 (ucast (lo :: u16) OR push_bit 16 (ucast (hi :: u16)) :: u32) AND 0xFFFF) = hi"
proof -
  have m: "(0xFFFF :: u32) = mask 16" by (simp add: mask_eq_exp_minus_1)
  show ?thesis unfolding m
    by (rule bit_word_eqI) (auto simp: bit_simps dest: bit_imp_le_length)
qed

lemma half_of_even:
  "half_of (2 * p) (ucast (lo :: u16) OR push_bit 16 (ucast (hi :: u16))) = lo"
proof -
  have "even (2 * p)" by simp
  then show ?thesis by (simp only: half_of_def if_True low_half)
qed

lemma half_of_odd:
  "half_of (2 * p + 1) (ucast (lo :: u16) OR push_bit 16 (ucast (hi :: u16))) = hi"
proof -
  have "\<not> even (2 * p + 1)" by simp
  then show ?thesis by (simp only: half_of_def if_False high_half)
qed

lemma payload_index:
  assumes "j < n" and "c < p"
  shows "j * p + c < p * (n :: nat)"
proof -
  have "j * p + c < Suc j * p" using assms(2) by simp
  also have "\<dots> \<le> n * p" using assms(1) by (intro mult_le_mono1) simp
  finally show ?thesis by (simp add: mult.commute)
qed

lemma decode_event_nth:
  "\<exists>w. decode_event L event = Inr w \<and> shaped L w \<and>
     (\<forall>ch<CHANNELS L. \<forall>j<WAVE_LEN L.
        w ! ch ! j =
          (if ch div 2 < WORDS_PER_SAMPLE L \<and>
              EVENT_HEADER_WORDS L + (j * WORDS_PER_SAMPLE L + ch div 2) < length event
           then half_of ch (event ! (EVENT_HEADER_WORDS L + (j * WORDS_PER_SAMPLE L + ch div 2)))
           else 0))"
proof -
  from decode_event_cells [of L event]
  obtain w where r: "decode_event L event = Inr w" and sh: "shaped L w"
    and c: "\<And>ch j. ch < CHANNELS L \<Longrightarrow> j < WAVE_LEN L \<Longrightarrow>
              w ! ch ! j = cell L (drop (EVENT_HEADER_WORDS L) event) (WAVE_LEN L) ch j"
    by blast
  have "cell L (drop h event) (WAVE_LEN L) ch j =
          (if ch div 2 < WORDS_PER_SAMPLE L \<and> h + (j * WORDS_PER_SAMPLE L + ch div 2) < length event
           then half_of ch (event ! (h + (j * WORDS_PER_SAMPLE L + ch div 2))) else 0)"
    if "j < WAVE_LEN L" for h ch j
    using that by (auto simp: cell_def)
  with r sh c show ?thesis by auto
qed


section \<open>The synchronizer: the first header\<close>


lemma np_where_eq_first:
  assumes "idx < length data" and "data ! idx = v" and "\<forall>k<idx. data ! k \<noteq> v"
  shows "\<exists>later. np_where_eq data v = idx # later"
proof -
  have split: "[0..<length data] = [0..<idx] @ idx # [Suc idx..<length data]"
    using assms(1) by (metis less_imp_le_nat upt_add_eq_append upt_conv_Cons le_add_diff_inverse zero_le)
  have "filter (\<lambda>k. data ! k = v) [0..<idx] = []"
    using assms(3) by (simp add: filter_empty_conv)
  then show ?thesis
    unfolding np_where_eq_def split using assms(2) by simp
qed

lemma np_where_eq_none:
  "np_where_eq data v = [] \<longleftrightarrow> v \<notin> set data"
  by (auto simp: np_where_eq_def filter_empty_conv in_set_conv_nth)

lemma find_event_no_header:
  assumes "0xFFFFFFFF \<notin> set data"
  shows "find_event L data = Inl NoHeader"
  using assms by (simp add: find_event_def np_where_eq_none)

lemma find_event_first:
  assumes "idx < length data" and "data ! idx = 0xFFFFFFFF" and "\<forall>k<idx. data ! k \<noteq> 0xFFFFFFFF"
  shows "find_event L data =
           (if idx + EVENT_WORDS L > length data then Inl NotCompleted
            else Inr (take (EVENT_WORDS L) (drop idx data)))"
proof -
  from np_where_eq_first [OF assms]
  obtain later where "np_where_eq data 0xFFFFFFFF = idx # later" by blast
  then show ?thesis by (simp add: find_event_def)
qed


section \<open>The accumulator: one turn of the loop, and its result\<close>


lemma length_c_uint32_array: "length (c_uint32_array n ws) = n"
  by (simp add: c_uint32_array_def)

lemma accumulate_done:
  "\<not> length raw < EVENT_WORDS L \<Longrightarrow> accumulate L dev c s raw = Some (Inr (raw, c, s))"
  by (subst accumulate.simps) simp

lemma accumulate_empty_read:
  "length raw < EVENT_WORDS L \<Longrightarrow> valid (dev c) = 0 \<Longrightarrow>
   accumulate L dev c s raw = accumulate L dev (c + 1) (s + 1) raw"
  by (subst accumulate.simps) simp

lemma accumulate_read:
  "length raw < EVENT_WORDS L \<Longrightarrow> valid (dev c) \<noteq> 0 \<Longrightarrow> valid (dev c) \<le> FIFO_CHUNK L \<Longrightarrow>
   accumulate L dev c s raw = accumulate L dev (c + 1) s (raw @ valid_words L dev c)"
  by (subst accumulate.simps)
     (simp add: frombuffer_def length_c_uint32_array valid_words_def Let_def)

lemma accumulate_overrun:
  "length raw < EVENT_WORDS L \<Longrightarrow> FIFO_CHUNK L < valid (dev c) \<Longrightarrow>
   accumulate L dev c s raw = Some (Inl ValueError)"
  by (subst accumulate.simps)
     (simp add: frombuffer_def length_c_uint32_array)

lemma accumulate_result:
  assumes "accumulate L dev c s raw0 = Some (Inr (raw, c', s'))"
  shows "EVENT_WORDS L \<le> length raw \<and> c \<le> c' \<and>
         raw = raw0 @ concat (map (valid_words L dev) [c..<c'])"
proof -
  let ?P = "\<lambda>L dev c (s :: nat) raw0 (y :: error + u32 list \<times> nat \<times> nat).
              \<forall>raw c' s'. y = Inr (raw, c', s') \<longrightarrow>
              EVENT_WORDS L \<le> length raw \<and> c \<le> c' \<and>
              raw = raw0 @ concat (map (valid_words L dev) [c..<c'])"
  have "?P L dev c s raw0 (Inr (raw, c', s'))"
  proof (rule accumulate.raw_induct [where P = ?P, OF _ assms], goal_cases)
    case (1 acc L dev c s raw0 y)
    note IH = "1"(1) and body = "1"(2)
    show ?case
    proof (cases "length raw0 < EVENT_WORDS L")
      case False
      then show ?thesis using body by auto
    next
      case True
      note short = this
      show ?thesis
      proof (cases "valid (dev c) = 0")
        case True
        then have "acc L dev (c + 1) (s + 1) raw0 = Some y"
          using body short by simp
        from IH [OF this] True show ?thesis
          by (auto simp: upt_conv_Cons valid_words_def)
      next
        case False
        show ?thesis
        proof (cases "FIFO_CHUNK L < valid (dev c)")
          case True
          then show ?thesis using body short False
            by (auto simp: frombuffer_def length_c_uint32_array)
        next
          case False
          then have "acc L dev (c + 1) s (raw0 @ valid_words L dev c) = Some y"
            using body short \<open>valid (dev c) \<noteq> 0\<close>
            by (simp add: frombuffer_def length_c_uint32_array valid_words_def Let_def)
          from IH [OF this] show ?thesis
            by (auto simp: upt_conv_Cons)
        qed
      qed
    qed
  qed
  then show ?thesis by blast
qed


lemma accumulate_alternating:
  assumes zero_or_full: "\<forall>k. valid (dev k) = 0 \<or> valid (dev k) = FIFO_CHUNK L"
    and alternate: "\<forall>k. valid (dev k) = 0 \<longrightarrow> valid (dev (Suc k)) \<noteq> 0"
    and target: "EVENT_WORDS L \<noteq> 0"
  shows "accumulate L dev c s [] =
           (if valid (dev c) = 0
            then Some (Inr (valid_words L dev (c + 1), c + 2, s + 1))
            else Some (Inr (valid_words L dev c, c + 1, s)))"
    and "EVENT_WORDS L \<le> length (valid_words L dev (if valid (dev c) = 0 then c + 1 else c))"
proof -
  have short: "length ([] :: u32 list) < EVENT_WORDS L" using target by simp
  have full: "accumulate L dev k t [] = Some (Inr (valid_words L dev k, k + 1, t))
              \<and> EVENT_WORDS L \<le> length (valid_words L dev k)"
    if "valid (dev k) \<noteq> 0" for k t
  proof -
    have v: "valid (dev k) = FIFO_CHUNK L"
      using zero_or_full [rule_format, of k] that by simp
    have len: "length (valid_words L dev k) = FIFO_CHUNK L"
      by (simp add: valid_words_def v length_c_uint32_array)
    then have enough: "\<not> length ([] @ valid_words L dev k) < EVENT_WORDS L"
      by (simp add: FIFO_CHUNK_def)
    have "accumulate L dev k t [] = accumulate L dev (k + 1) t ([] @ valid_words L dev k)"
      using short that v by (intro accumulate_read) simp_all
    also have "\<dots> = Some (Inr ([] @ valid_words L dev k, k + 1, t))"
      using enough by (rule accumulate_done)
    finally show ?thesis using enough by simp
  qed
  show "accumulate L dev c s [] =
           (if valid (dev c) = 0
            then Some (Inr (valid_words L dev (c + 1), c + 2, s + 1))
            else Some (Inr (valid_words L dev c, c + 1, s)))"
  proof (cases "valid (dev c) = 0")
    case False
    from full [OF this, of s] False show ?thesis by simp
  next
    case True
    then have next_full: "valid (dev (c + 1)) \<noteq> 0" using alternate by simp
    have "accumulate L dev c s [] = accumulate L dev (c + 1) (s + 1) []"
      using short True by (rule accumulate_empty_read)
    also have "\<dots> = Some (Inr (valid_words L dev (c + 1), c + 1 + 1, s + 1))"
      using full [OF next_full, of "s + 1"] by blast
    finally show ?thesis using True by simp
  qed
  show "EVENT_WORDS L \<le> length (valid_words L dev (if valid (dev c) = 0 then c + 1 else c))"
  proof (cases "valid (dev c) = 0")
    case False
    from full [OF this, of s] False show ?thesis by simp
  next
    case True
    then have "valid (dev (c + 1)) \<noteq> 0" using alternate by simp
    from full [OF this, of s] True show ?thesis by simp
  qed
qed


section \<open>Claims about the decoder\<close>

text \<open>
  Claim C1. Let the layout give room for every channel of a payload word
  (\<open>2 * WORDS_PER_SAMPLE \<le> CHANNELS\<close>, as in the scripts, where it is \<open>32 = 2 * 16\<close>).
  For a group index \<open>g\<close> below \<open>WAVE_LEN\<close> and a word index \<open>p\<close> below
  \<open>WORDS_PER_SAMPLE\<close>, if the frame holds the word \<open>low16 | (high16 << 16)\<close> at payload
  position \<open>g * WORDS_PER_SAMPLE + p\<close>, then \<open>decode_event\<close> returns a matrix with
  \<open>low16\<close> in row \<open>2p\<close> and \<open>high16\<close> in row \<open>2p + 1\<close>, both at column \<open>g\<close>.
\<close>

theorem decode_event_recovers_packed_samples:
  assumes "2 * WORDS_PER_SAMPLE L \<le> CHANNELS L"
    and "g < WAVE_LEN L" and "p < WORDS_PER_SAMPLE L"
    and "EVENT_HEADER_WORDS L + (g * WORDS_PER_SAMPLE L + p) < length frame"
    and "frame ! (EVENT_HEADER_WORDS L + (g * WORDS_PER_SAMPLE L + p))
           = ucast (low16 :: u16) OR push_bit 16 (ucast (high16 :: u16))"
  shows "\<exists>matrix. decode_event L frame = Inr matrix \<and>
           matrix ! (2 * p) ! g = low16 \<and> matrix ! (2 * p + 1) ! g = high16"
proof -
  from decode_event_nth [of L frame]
  obtain w where r: "decode_event L frame = Inr w"
    and c: "\<And>ch j. ch < CHANNELS L \<Longrightarrow> j < WAVE_LEN L \<Longrightarrow>
              w ! ch ! j =
                (if ch div 2 < WORDS_PER_SAMPLE L \<and>
                    EVENT_HEADER_WORDS L + (j * WORDS_PER_SAMPLE L + ch div 2) < length frame
                 then half_of ch (frame ! (EVENT_HEADER_WORDS L + (j * WORDS_PER_SAMPLE L + ch div 2)))
                 else 0)"
    by blast
  have chA: "2 * p < CHANNELS L" and chB: "2 * p + 1 < CHANNELS L"
    using assms(1,3) by simp_all
  have dA: "(2 * p) div 2 = p" and dB: "(2 * p + 1) div 2 = p" by simp_all
  have "w ! (2 * p) ! g = low16"
    using c [OF chA assms(2)] assms(3,4) unfolding dA assms(5) by (simp add: half_of_even)
  moreover have "w ! (2 * p + 1) ! g = high16"
    using c [OF chB assms(2)] assms(3,4) unfolding dB assms(5)
    by (simp add: half_of_odd [simplified])
  ultimately show ?thesis using r by blast
qed

theorem decode_event_recovers_packed_samples_witness:
  "\<exists>matrix. decode_event DT5560 (replicate 16 0xFFFFFFFF @ replicate 640 0x00020001) = Inr matrix \<and>
      matrix ! 10 ! 3 = 1 \<and> matrix ! 11 ! 3 = 2"
  using decode_event_recovers_packed_samples
          [of DT5560 3 5 "replicate 16 0xFFFFFFFF @ replicate 640 0x00020001" 1 2]
  by (simp add: DT5560_def nth_append)


text \<open>
  Claim C8. For every layout and every frame of exactly \<open>EVENT_WORDS\<close> words,
  \<open>decode_event\<close> returns a matrix (no index is out of range on the way) of \<open>CHANNELS\<close>
  rows of \<open>WAVE_LEN\<close> cells; the cell of channel \<open>ch\<close> at sample \<open>j\<close> is the half of
  payload word \<open>j * WORDS_PER_SAMPLE + ch div 2\<close> that belongs to \<open>ch\<close>, and zero for a
  channel that no word of a group carries. A pair whose channels are at or beyond
  \<open>CHANNELS\<close> leaves the matrix as it is: the loop body only moves on to the next word.
\<close>

theorem decode_event_total_on_frames:
  assumes "length frame = EVENT_WORDS L"
  shows "\<exists>matrix. decode_event L frame = Inr matrix \<and> shaped L matrix \<and>
           (\<forall>ch<CHANNELS L. \<forall>j<WAVE_LEN L.
              matrix ! ch ! j =
                (if ch div 2 < WORDS_PER_SAMPLE L
                 then half_of ch (frame ! (EVENT_HEADER_WORDS L + (j * WORDS_PER_SAMPLE L + ch div 2)))
                 else 0)) \<and>
           (\<forall>waves i pair idx.
              CHANNELS L \<le> pair * 2 \<and> idx < length (drop (EVENT_HEADER_WORDS L) frame) \<longrightarrow>
              pair_body L (drop (EVENT_HEADER_WORDS L) frame) i pair (waves, idx) = Inr (waves, idx + 1))"
proof -
  from decode_event_nth [of L frame]
  obtain w where r: "decode_event L frame = Inr w" and sh: "shaped L w"
    and c: "\<And>ch j. ch < CHANNELS L \<Longrightarrow> j < WAVE_LEN L \<Longrightarrow>
              w ! ch ! j =
                (if ch div 2 < WORDS_PER_SAMPLE L \<and>
                    EVENT_HEADER_WORDS L + (j * WORDS_PER_SAMPLE L + ch div 2) < length frame
                 then half_of ch (frame ! (EVENT_HEADER_WORDS L + (j * WORDS_PER_SAMPLE L + ch div 2)))
                 else 0)"
    by blast
  have inside: "EVENT_HEADER_WORDS L + (j * WORDS_PER_SAMPLE L + ch div 2) < length frame"
    if "j < WAVE_LEN L" "ch div 2 < WORDS_PER_SAMPLE L" for ch j
    using payload_index [OF that] assms by (simp add: EVENT_WORDS_def)
  have cells: "w ! ch ! j =
                (if ch div 2 < WORDS_PER_SAMPLE L
                 then half_of ch (frame ! (EVENT_HEADER_WORDS L + (j * WORDS_PER_SAMPLE L + ch div 2)))
                 else 0)"
    if "ch < CHANNELS L" "j < WAVE_LEN L" for ch j
    using c [OF that] inside [OF that(2)] by simp
  have dropped: "pair_body L wd i pair (waves, idx) = Inr (waves, idx + 1)"
    if "CHANNELS L \<le> pair * 2" "idx < length wd" for wd waves i pair idx
    using that by (simp add: pair_body_def getitem_def)
  show ?thesis using r sh cells dropped by blast
qed

theorem decode_event_total_on_frames_witness:
  "length [0xFFFFFFFF, 0x00020001, 0x00040003, 0x00060005, 0x00080007 :: u32] = EVENT_WORDS small_layout \<and>
   (\<exists>matrix. decode_event small_layout [0xFFFFFFFF, 0x00020001, 0x00040003, 0x00060005, 0x00080007] = Inr matrix \<and>
      shaped small_layout matrix \<and> matrix ! 2 ! 1 = 7)"
proof -
  have len: "length [0xFFFFFFFF, 0x00020001, 0x00040003, 0x00060005, 0x00080007 :: u32] = EVENT_WORDS small_layout"
    by (simp add: small_layout_def EVENT_WORDS_def)
  from decode_event_total_on_frames [OF len]
  obtain matrix where "decode_event small_layout [0xFFFFFFFF, 0x00020001, 0x00040003, 0x00060005, 0x00080007] = Inr matrix"
    and "shaped small_layout matrix"
    and "\<forall>ch<CHANNELS small_layout. \<forall>j<WAVE_LEN small_layout.
              matrix ! ch ! j =
                (if ch div 2 < WORDS_PER_SAMPLE small_layout
                 then half_of ch ([0xFFFFFFFF, 0x00020001, 0x00040003, 0x00060005, 0x00080007] !
                        (EVENT_HEADER_WORDS small_layout + (j * WORDS_PER_SAMPLE small_layout + ch div 2)))
                 else 0)"
    by blast
  moreover from this(3) have "matrix ! 2 ! 1 = 7"
    by (simp add: small_layout_def half_of_def)
  ultimately show ?thesis using len by blast
qed


text \<open>
  Claim C9. Two frames of \<open>EVENT_WORDS\<close> words that agree on every payload word (the
  indices from \<open>EVENT_HEADER_WORDS\<close> on) decode to the same result, whatever their
  header words are. Agreement on word 0 is not needed: the decoder does not read it.
\<close>

theorem decode_event_ignores_header:
  assumes "length frame1 = EVENT_WORDS L" and "length frame2 = EVENT_WORDS L"
    and "\<forall>k. EVENT_HEADER_WORDS L \<le> k \<and> k < EVENT_WORDS L \<longrightarrow> frame1 ! k = frame2 ! k"
  shows "decode_event L frame1 = decode_event L frame2"
proof -
  have "drop (EVENT_HEADER_WORDS L) frame1 = drop (EVENT_HEADER_WORDS L) frame2"
  proof (rule nth_equalityI)
    show "length (drop (EVENT_HEADER_WORDS L) frame1) = length (drop (EVENT_HEADER_WORDS L) frame2)"
      using assms(1,2) by simp
  next
    fix i assume "i < length (drop (EVENT_HEADER_WORDS L) frame1)"
    then have "EVENT_HEADER_WORDS L + i < EVENT_WORDS L" using assms(1) by simp
    then have "frame1 ! (EVENT_HEADER_WORDS L + i) = frame2 ! (EVENT_HEADER_WORDS L + i)"
      using assms(3) by simp
    then show "drop (EVENT_HEADER_WORDS L) frame1 ! i = drop (EVENT_HEADER_WORDS L) frame2 ! i"
      using assms(1,2) \<open>EVENT_HEADER_WORDS L + i < EVENT_WORDS L\<close> by simp
  qed
  then show ?thesis by (simp add: decode_event_def)
qed

theorem decode_event_ignores_header_witness:
  "decode_event DT5560 (0xFFFFFFFF # replicate 655 0) = decode_event DT5560 (0xFFFFFFFF # replicate 15 7 @ replicate 640 0)"
proof (rule decode_event_ignores_header)
  show "length (0xFFFFFFFF # replicate 655 (0 :: u32)) = EVENT_WORDS DT5560"
    by (simp add: DT5560_def EVENT_WORDS_def)
  show "length (0xFFFFFFFF # replicate 15 7 @ replicate 640 (0 :: u32)) = EVENT_WORDS DT5560"
    by (simp add: DT5560_def EVENT_WORDS_def)
  show "\<forall>k. EVENT_HEADER_WORDS DT5560 \<le> k \<and> k < EVENT_WORDS DT5560 \<longrightarrow>
          (0xFFFFFFFF # replicate 655 (0 :: u32)) ! k = (0xFFFFFFFF # replicate 15 7 @ replicate 640 0) ! k"
    by (auto simp: DT5560_def EVENT_WORDS_def nth_Cons' nth_append)
qed

text \<open>
  Claim C10. For every input shorter than \<open>EVENT_WORDS\<close> words, the empty one
  included, \<open>decode_event\<close> returns a matrix of \<open>CHANNELS\<close> rows of \<open>WAVE_LEN\<close> cells,
  and raises nothing; a cell holds its half of payload word
  \<open>j * WORDS_PER_SAMPLE + ch div 2\<close> when the input has that word, and zero otherwise.
\<close>

theorem decode_event_short_input:
  assumes "length event < EVENT_WORDS L"
  shows "\<exists>matrix. decode_event L event = Inr matrix \<and> shaped L matrix \<and>
           (\<forall>ch<CHANNELS L. \<forall>j<WAVE_LEN L.
              matrix ! ch ! j =
                (if ch div 2 < WORDS_PER_SAMPLE L \<and>
                    EVENT_HEADER_WORDS L + (j * WORDS_PER_SAMPLE L + ch div 2) < length event
                 then half_of ch (event ! (EVENT_HEADER_WORDS L + (j * WORDS_PER_SAMPLE L + ch div 2)))
                 else 0))"
  by (rule decode_event_nth)

theorem decode_event_short_input_witness:
  "length (replicate 16 0xFFFFFFFF @ [0x00020001 :: u32]) < EVENT_WORDS DT5560 \<and>
   (\<exists>matrix. decode_event DT5560 (replicate 16 0xFFFFFFFF @ [0x00020001]) = Inr matrix \<and>
      shaped DT5560 matrix \<and>
      matrix ! 0 ! 0 = 1 \<and> matrix ! 1 ! 0 = 2 \<and> matrix ! 2 ! 0 = 0 \<and> matrix ! 0 ! 1 = 0)"
proof -
  let ?ev = "replicate 16 0xFFFFFFFF @ [0x00020001 :: u32]"
  have len: "length ?ev < EVENT_WORDS DT5560"
    by (simp add: DT5560_def EVENT_WORDS_def)
  from decode_event_short_input [OF len]
  obtain matrix where r: "decode_event DT5560 ?ev = Inr matrix" and sh: "shaped DT5560 matrix"
    and c: "\<And>ch j. ch < CHANNELS DT5560 \<Longrightarrow> j < WAVE_LEN DT5560 \<Longrightarrow>
              matrix ! ch ! j =
                (if ch div 2 < WORDS_PER_SAMPLE DT5560 \<and>
                    EVENT_HEADER_WORDS DT5560 + (j * WORDS_PER_SAMPLE DT5560 + ch div 2) < length ?ev
                 then half_of ch (?ev ! (EVENT_HEADER_WORDS DT5560 + (j * WORDS_PER_SAMPLE DT5560 + ch div 2)))
                 else 0)"
    by blast
  have "matrix ! 0 ! 0 = 1" using c [of 0 0] by (simp add: DT5560_def half_of_def nth_append)
  moreover have "matrix ! 1 ! 0 = 2" using c [of 1 0] by (simp add: DT5560_def half_of_def nth_append)
  moreover have "matrix ! 2 ! 0 = 0" using c [of 2 0] by (simp add: DT5560_def)
  moreover have "matrix ! 0 ! 1 = 0" using c [of 0 1] by (simp add: DT5560_def)
  ultimately show ?thesis using len r sh by blast
qed

section \<open>Claims about the synchronizer\<close>

text \<open>
  Claim C3. Let \<open>buffer\<close> start with the header word \<open>0xFFFFFFFF\<close> and hold at least
  \<open>EVENT_WORDS\<close> words, and let \<open>junk\<close> be any words without a header word. Then the
  synchronizer finds in \<open>junk @ buffer\<close> the same event as in \<open>buffer\<close>, the first
  \<open>EVENT_WORDS\<close> words of \<open>buffer\<close>, so the rest of the loop body does the same with
  both and the decoded matrix is the same. The words of \<open>buffer\<close> after its first one are
  arbitrary: header words among them are not looked at, the first occurrence is used.
\<close>

theorem find_event_skips_junk:
  assumes "0xFFFFFFFF \<notin> set junk"
    and "buffer \<noteq> []" and "buffer ! 0 = 0xFFFFFFFF"
    and "EVENT_WORDS L \<le> length buffer"
  shows "find_event L (junk @ buffer) = Inr (take (EVENT_WORDS L) buffer) \<and>
         find_event L buffer = Inr (take (EVENT_WORDS L) buffer) \<and>
         handle_data L st (junk @ buffer) = handle_data L st buffer"
proof -
  have at: "length junk < length (junk @ buffer)" using assms(2) by simp
  have hdr: "(junk @ buffer) ! length junk = 0xFFFFFFFF" using assms(3) by (simp add: nth_append)
  have before: "\<forall>k<length junk. (junk @ buffer) ! k \<noteq> 0xFFFFFFFF"
    using assms(1) by (auto simp: nth_append dest: nth_mem)
  have with_junk: "find_event L (junk @ buffer) = Inr (take (EVENT_WORDS L) buffer)"
    using find_event_first [OF at hdr before, of L] assms(4) by simp
  have "0 < length buffer" using assms(2) by simp
  from find_event_first [OF this assms(3), of L] assms(4)
  have bare: "find_event L buffer = Inr (take (EVENT_WORDS L) buffer)" by simp
  show ?thesis using with_junk bare by (simp add: handle_data_def)
qed

theorem find_event_skips_junk_witness:
  "find_event DT5560 ([1, 2, 3] @ 0xFFFFFFFF # replicate 655 0 @ [0xFFFFFFFF, 5])
     = Inr (0xFFFFFFFF # replicate 655 0) \<and>
   find_event DT5560 (0xFFFFFFFF # replicate 655 0 @ [0xFFFFFFFF, 5])
     = Inr (0xFFFFFFFF # replicate 655 0)"
  using find_event_skips_junk [of "[1, 2, 3]" "0xFFFFFFFF # replicate 655 0 @ [0xFFFFFFFF, 5]" DT5560]
  by (simp add: DT5560_def EVENT_WORDS_def)


lemma acq_loop_skips:
  assumes "accumulate L dev (fifo_calls st) (slept st) [] = Some (Inr (data, calls, sleeps))"
    and "find_event L data = Inl m"
  shows "event_body L dev st =
           Some (Inr (st\<lparr>fifo_calls := calls, slept := sleeps, printed := printed st @ [m]\<rparr>))"
    and "acq_loop L dev (Suc n) st =
           acq_loop L dev n (st\<lparr>fifo_calls := calls, slept := sleeps, printed := printed st @ [m]\<rparr>)"
  using assms by (simp_all add: event_body_def handle_data_def)

text \<open>
  Claim C4. Let the first header word of \<open>data\<close> be at offset \<open>idx\<close> with
  \<open>idx + EVENT_WORDS > len(data)\<close>. Then the synchronizer takes the branch
  \<^verbatim>\<open>Event not completed\<close>; the loop body prints the message and changes nothing else, in
  particular no matrix reaches the tree; and in a run whose accumulator returned
  \<open>data\<close>, the loop goes on with the events that are left.
\<close>

theorem incomplete_frame_is_skipped:
  assumes "idx < length data" and "data ! idx = 0xFFFFFFFF"
    and "\<forall>k<idx. data ! k \<noteq> 0xFFFFFFFF"
    and "idx + EVENT_WORDS L > length data"
  shows "find_event L data = Inl NotCompleted \<and>
         handle_data L st data = Inr (st\<lparr>printed := printed st @ [NotCompleted]\<rparr>) \<and>
         (\<forall>dev st0 calls sleeps n.
            accumulate L dev (fifo_calls st0) (slept st0) [] = Some (Inr (data, calls, sleeps)) \<longrightarrow>
            event_body L dev st0 =
              Some (Inr (st0\<lparr>fifo_calls := calls, slept := sleeps,
                             printed := printed st0 @ [NotCompleted]\<rparr>)) \<and>
            acq_loop L dev (Suc n) st0 =
              acq_loop L dev n (st0\<lparr>fifo_calls := calls, slept := sleeps,
                                    printed := printed st0 @ [NotCompleted]\<rparr>))"
proof -
  have f: "find_event L data = Inl NotCompleted"
    using find_event_first [OF assms(1,2,3), of L] assms(4) by simp
  then have "handle_data L st data = Inr (st\<lparr>printed := printed st @ [NotCompleted]\<rparr>)"
    by (simp add: handle_data_def)
  with f acq_loop_skips [OF _ f] show ?thesis by blast
qed

lemma late_header_data:
  "accumulate DT5560 late_header_device 0 0 []
     = Some (Inr (replicate 1000 0 @ 0xFFFFFFFF # replicate 311 0, 1, 0))"
proof -
  have "accumulate DT5560 late_header_device 0 0 []
          = accumulate DT5560 late_header_device (0 + 1) 0 ([] @ valid_words DT5560 late_header_device 0)"
    by (rule accumulate_read)
       (simp_all add: DT5560_def EVENT_WORDS_def FIFO_CHUNK_def late_header_device_def)
  also have "valid_words DT5560 late_header_device 0 = replicate 1000 0 @ 0xFFFFFFFF # replicate 311 0"
    by (simp add: valid_words_def c_uint32_array_def DT5560_def EVENT_WORDS_def FIFO_CHUNK_def
          late_header_device_def)
  also have "accumulate DT5560 late_header_device (0 + 1) 0 ([] @ (replicate 1000 0 @ 0xFFFFFFFF # replicate 311 0))
               = Some (Inr ([] @ (replicate 1000 0 @ 0xFFFFFFFF # replicate 311 0), 0 + 1, 0))"
    by (rule accumulate_done) (simp add: DT5560_def EVENT_WORDS_def)
  finally show ?thesis by simp
qed

theorem incomplete_frame_is_skipped_witness:
  "find_event DT5560 (replicate 1000 0 @ 0xFFFFFFFF # replicate 311 0) = Inl NotCompleted \<and>
   acq_loop DT5560 late_header_device (Suc 99) start_state
     = acq_loop DT5560 late_header_device 99
         (start_state\<lparr>fifo_calls := 1, slept := 0,
                        printed := printed start_state @ [NotCompleted]\<rparr>)"
proof -
  let ?data = "replicate 1000 0 @ 0xFFFFFFFF # replicate 311 (0 :: u32)"
  have 1: "1000 < length ?data" by simp
  have 2: "?data ! 1000 = 0xFFFFFFFF" by (simp add: nth_append)
  have 3: "\<forall>k<1000. ?data ! k \<noteq> 0xFFFFFFFF" by (simp add: nth_append)
  have 4: "1000 + EVENT_WORDS DT5560 > length ?data" by (simp add: DT5560_def EVENT_WORDS_def)
  have acc: "accumulate DT5560 late_header_device (fifo_calls start_state) (slept start_state) []
               = Some (Inr (?data, 1, 0))"
    using late_header_data by (simp add: start_state_def)
  from incomplete_frame_is_skipped [OF 1 2 3 4, of start_state]
  have f: "find_event DT5560 ?data = Inl NotCompleted"
    and step: "\<And>dev st0 calls sleeps n.
            accumulate DT5560 dev (fifo_calls st0) (slept st0) [] = Some (Inr (?data, calls, sleeps)) \<Longrightarrow>
            acq_loop DT5560 dev (Suc n) st0 =
              acq_loop DT5560 dev n (st0\<lparr>fifo_calls := calls, slept := sleeps,
                                    printed := printed st0 @ [NotCompleted]\<rparr>)"
    by blast+
  from f step [OF acc, of 99] show ?thesis by blast
qed


text \<open>
  Claim C5. Let \<open>data\<close> hold no word \<open>0xFFFFFFFF\<close>. Then the synchronizer takes the
  branch \<^verbatim>\<open>Event without header\<close>; the loop body prints the message and changes nothing
  else, so nothing is decoded; and in a run whose accumulator returned \<open>data\<close>, the loop
  goes on with the events that are left.
\<close>

theorem missing_header_is_skipped:
  assumes "0xFFFFFFFF \<notin> set data"
  shows "find_event L data = Inl NoHeader \<and>
         handle_data L st data = Inr (st\<lparr>printed := printed st @ [NoHeader]\<rparr>) \<and>
         (\<forall>dev st0 calls sleeps n.
            accumulate L dev (fifo_calls st0) (slept st0) [] = Some (Inr (data, calls, sleeps)) \<longrightarrow>
            event_body L dev st0 =
              Some (Inr (st0\<lparr>fifo_calls := calls, slept := sleeps,
                             printed := printed st0 @ [NoHeader]\<rparr>)) \<and>
            acq_loop L dev (Suc n) st0 =
              acq_loop L dev n (st0\<lparr>fifo_calls := calls, slept := sleeps,
                                    printed := printed st0 @ [NoHeader]\<rparr>))"
proof -
  have f: "find_event L data = Inl NoHeader"
    using assms by (rule find_event_no_header)
  then have "handle_data L st data = Inr (st\<lparr>printed := printed st @ [NoHeader]\<rparr>)"
    by (simp add: handle_data_def)
  with f acq_loop_skips [OF _ f] show ?thesis by blast
qed

lemma no_header_data:
  "accumulate DT5560 no_header_device 0 0 [] = Some (Inr (replicate 1312 0, 1, 0))"
proof -
  have "accumulate DT5560 no_header_device 0 0 []
          = accumulate DT5560 no_header_device (0 + 1) 0 ([] @ valid_words DT5560 no_header_device 0)"
    by (rule accumulate_read)
       (simp_all add: DT5560_def EVENT_WORDS_def FIFO_CHUNK_def no_header_device_def)
  also have "valid_words DT5560 no_header_device 0 = replicate 1312 0"
    by (simp add: valid_words_def c_uint32_array_def DT5560_def EVENT_WORDS_def FIFO_CHUNK_def
          no_header_device_def)
  also have "accumulate DT5560 no_header_device (0 + 1) 0 ([] @ replicate 1312 0)
               = Some (Inr ([] @ replicate 1312 0, 0 + 1, 0))"
    by (rule accumulate_done) (simp add: DT5560_def EVENT_WORDS_def)
  finally show ?thesis by simp
qed

theorem missing_header_is_skipped_witness:
  "find_event DT5560 (replicate 1312 0) = Inl NoHeader \<and>
   acq_loop DT5560 no_header_device (Suc 99) start_state
     = acq_loop DT5560 no_header_device 99
         (start_state\<lparr>fifo_calls := 1, slept := 0,
                        printed := printed start_state @ [NoHeader]\<rparr>)"
proof -
  have 1: "0xFFFFFFFF \<notin> set (replicate 1312 (0 :: u32))" by simp
  have acc: "accumulate DT5560 no_header_device (fifo_calls start_state) (slept start_state) []
               = Some (Inr (replicate 1312 0, 1, 0))"
    using no_header_data by (simp add: start_state_def)
  from missing_header_is_skipped [OF 1, of DT5560 start_state]
  have f: "find_event DT5560 (replicate 1312 0) = Inl NoHeader"
    and step: "\<And>dev st0 calls sleeps n.
            accumulate DT5560 dev (fifo_calls st0) (slept st0) [] = Some (Inr (replicate 1312 0, calls, sleeps)) \<Longrightarrow>
            acq_loop DT5560 dev (Suc n) st0 =
              acq_loop DT5560 dev n (st0\<lparr>fifo_calls := calls, slept := sleeps,
                                    printed := printed st0 @ [NoHeader]\<rparr>)"
    by blast+
  from f step [OF acc, of 99] show ?thesis by blast
qed


section \<open>Claims about the accumulator\<close>

text \<open>
  Claim C6. When the accumulator of an event returns \<open>raw_words\<close>, then
  \<open>raw_words\<close> has at least \<open>EVENT_WORDS\<close> words, it is the concatenation, in the order
  of the calls, of the valid words of the \<^verbatim>\<open>ReadFifo\<close> calls made for this event, and
  the rest of the loop body runs on all of \<open>raw_words\<close>.
\<close>

theorem accumulate_hands_on_all_valid_words:
  assumes "accumulate L dev (fifo_calls st) (slept st) [] = Some (Inr (raw_words, calls, sleeps))"
  shows "EVENT_WORDS L \<le> length raw_words \<and>
         fifo_calls st \<le> calls \<and>
         raw_words = concat (map (valid_words L dev) [fifo_calls st..<calls]) \<and>
         event_body L dev st =
           Some (handle_data L (st\<lparr>fifo_calls := calls, slept := sleeps\<rparr>) raw_words)"
proof -
  have "EVENT_WORDS L \<le> length raw_words \<and> fifo_calls st \<le> calls \<and>
        raw_words = concat (map (valid_words L dev) [fifo_calls st..<calls])"
    using accumulate_result [OF assms] unfolding append_Nil .
  moreover have "event_body L dev st =
                   Some (handle_data L (st\<lparr>fifo_calls := calls, slept := sleeps\<rparr>) raw_words)"
    using assms by (simp add: event_body_def)
  ultimately show ?thesis by blast
qed

lemma partial_device_data:
  "accumulate DT5560 partial_device 0 0 [] = Some (Inr (replicate 400 1 @ replicate 400 2, 2, 0))"
proof -
  have w: "valid_words DT5560 partial_device k = replicate 400 (of_nat k + 1)" for k
    by (simp add: valid_words_def c_uint32_array_def DT5560_def EVENT_WORDS_def FIFO_CHUNK_def
          partial_device_def)
  have ew: "EVENT_WORDS DT5560 = 656" and chunk: "FIFO_CHUNK DT5560 = 1312"
    by (simp_all add: DT5560_def EVENT_WORDS_def FIFO_CHUNK_def)
  have "accumulate DT5560 partial_device 0 0 []
          = accumulate DT5560 partial_device (0 + 1) 0 ([] @ valid_words DT5560 partial_device 0)"
    by (rule accumulate_read) (simp_all add: ew chunk partial_device_def)
  also have "\<dots> = accumulate DT5560 partial_device (0 + 1 + 1) 0
                      (([] @ valid_words DT5560 partial_device 0) @ valid_words DT5560 partial_device (0 + 1))"
    by (rule accumulate_read) (simp_all add: w ew chunk partial_device_def)
  also have "\<dots> = Some (Inr (([] @ valid_words DT5560 partial_device 0) @ valid_words DT5560 partial_device (0 + 1),
                                0 + 1 + 1, 0))"
    by (rule accumulate_done) (simp add: w ew)
  finally show ?thesis by (simp add: w)
qed

theorem accumulate_hands_on_all_valid_words_witness:
  "accumulate DT5560 partial_device (fifo_calls start_state) (slept start_state) []
     = Some (Inr (replicate 400 1 @ replicate 400 2, 2, 0)) \<and>
   EVENT_WORDS DT5560 \<le> length (replicate 400 1 @ replicate 400 (2 :: u32)) \<and>
   event_body DT5560 partial_device start_state =
     Some (handle_data DT5560 (start_state\<lparr>fifo_calls := 2, slept := 0\<rparr>)
             (replicate 400 1 @ replicate 400 2))"
proof -
  have acc: "accumulate DT5560 partial_device (fifo_calls start_state) (slept start_state) []
               = Some (Inr (replicate 400 1 @ replicate 400 2, 2, 0))"
    using partial_device_data by (simp add: start_state_def)
  from accumulate_hands_on_all_valid_words [OF acc] acc show ?thesis by blast
qed

text \<open>
  Claim C7. Let every call deliver either no valid word or a full chunk, and let a call
  without valid words be followed by one with some (so for a device that alternates, in
  either phase). Then the accumulator returns, without raising, and its result is known
  exactly. When the first call of the event delivers nothing, it sleeps once, calls
  again and returns the full chunk of the second call: two calls and one sleep. When the
  first call delivers a full chunk, it returns that chunk: one call and no sleep. (With
  a target of no words it returns at once.) The words returned are at least
  \<open>EVENT_WORDS\<close>. In every turn of the loop, for every device, a call without valid words
  while the buffer is short of the target does nothing but count one more call and one
  more sleep and go round again with the buffer as it is: no error value comes from it.
\<close>

theorem accumulate_reaches_target_on_alternating_reads:
  assumes "\<forall>k. valid (dev k) = 0 \<or> valid (dev k) = FIFO_CHUNK L"
    and "\<forall>k. valid (dev k) = 0 \<longrightarrow> valid (dev (Suc k)) \<noteq> 0"
  shows "accumulate L dev calls sleeps [] =
           (if EVENT_WORDS L = 0 then Some (Inr ([], calls, sleeps))
            else if valid (dev calls) = 0
                 then Some (Inr (valid_words L dev (calls + 1), calls + 2, sleeps + 1))
                 else Some (Inr (valid_words L dev calls, calls + 1, sleeps))) \<and>
         (\<exists>raw_words calls' sleeps'.
            accumulate L dev calls sleeps [] = Some (Inr (raw_words, calls', sleeps')) \<and>
            EVENT_WORDS L \<le> length raw_words) \<and>
         (\<forall>dev' raw c s.
            length raw < EVENT_WORDS L \<and> valid (dev' c) = 0 \<longrightarrow>
            accumulate L dev' c s raw = accumulate L dev' (c + 1) (s + 1) raw)"
proof -
  have exact: "accumulate L dev calls sleeps [] =
           (if EVENT_WORDS L = 0 then Some (Inr ([], calls, sleeps))
            else if valid (dev calls) = 0
                 then Some (Inr (valid_words L dev (calls + 1), calls + 2, sleeps + 1))
                 else Some (Inr (valid_words L dev calls, calls + 1, sleeps)))"
  proof (cases "EVENT_WORDS L = 0")
    case True
    then show ?thesis by (simp add: accumulate_done)
  next
    case False
    from accumulate_alternating(1) [OF assms False, of calls sleeps] False
    show ?thesis by simp
  qed
  have enough: "\<exists>raw_words calls' sleeps'.
            accumulate L dev calls sleeps [] = Some (Inr (raw_words, calls', sleeps')) \<and>
            EVENT_WORDS L \<le> length raw_words"
  proof (cases "EVENT_WORDS L = 0")
    case True
    then show ?thesis by (simp add: accumulate_done)
  next
    case False
    from accumulate_alternating(2) [OF assms False, of calls]
    have len: "EVENT_WORDS L \<le> length (valid_words L dev (if valid (dev calls) = 0 then calls + 1 else calls))" .
    show ?thesis
    proof (cases "valid (dev calls) = 0")
      case True
      then have "accumulate L dev calls sleeps []
                   = Some (Inr (valid_words L dev (calls + 1), calls + 2, sleeps + 1))"
        using exact False by simp
      moreover have "EVENT_WORDS L \<le> length (valid_words L dev (calls + 1))"
        using len True by simp
      ultimately show ?thesis by blast
    next
      case nonzero: False
      then have "accumulate L dev calls sleeps []
                   = Some (Inr (valid_words L dev calls, calls + 1, sleeps))"
        using exact False by simp
      moreover have "EVENT_WORDS L \<le> length (valid_words L dev calls)"
        using len nonzero by simp
      ultimately show ?thesis by blast
    qed
  qed
  have retry: "accumulate L dev' c s raw = accumulate L dev' (c + 1) (s + 1) raw"
    if "length raw < EVENT_WORDS L" "valid (dev' c) = 0" for dev' raw c s
    using that by (rule accumulate_empty_read)
  show ?thesis using exact enough retry by blast
qed

theorem accumulate_reaches_target_on_alternating_reads_witness:
  "accumulate DT5560 alternating_device 0 0 [] = Some (Inr (0xFFFFFFFF # replicate 1311 0, 2, 1)) \<and>
   EVENT_WORDS DT5560 \<le> length (0xFFFFFFFF # replicate 1311 (0 :: u32)) \<and>
   accumulate DT5560 alternating_device 1 0 [] = Some (Inr (0xFFFFFFFF # replicate 1311 0, 2, 0))"
proof -
  have ew: "EVENT_WORDS DT5560 = 656" and chunk: "FIFO_CHUNK DT5560 = 1312"
    by (simp_all add: DT5560_def EVENT_WORDS_def FIFO_CHUNK_def)
  have 1: "\<forall>k. valid (alternating_device k) = 0 \<or> valid (alternating_device k) = FIFO_CHUNK DT5560"
    by (simp add: alternating_device_def chunk)
  have 2: "\<forall>k. valid (alternating_device k) = 0 \<longrightarrow> valid (alternating_device (Suc k)) \<noteq> 0"
    by (simp add: alternating_device_def)
  have w: "valid_words DT5560 alternating_device k = 0xFFFFFFFF # replicate 1311 0" if "odd k" for k
    using that by (simp add: valid_words_def c_uint32_array_def chunk alternating_device_def)
  have wS: "valid_words DT5560 alternating_device (Suc 0) = 0xFFFFFFFF # replicate 1311 0"
    by (rule w) simp
  have v0: "valid (alternating_device 0) = 0" and v1: "valid (alternating_device (Suc 0)) = 1312"
    by (simp_all add: alternating_device_def)
  have "accumulate DT5560 alternating_device 0 0 []
          = Some (Inr (valid_words DT5560 alternating_device (0 + 1), 0 + 2, 0 + 1))"
    using accumulate_reaches_target_on_alternating_reads
            [where L = DT5560 and dev = alternating_device and calls = 0 and sleeps = 0,
             OF 1 2, THEN conjunct1]
    by (simp add: ew v0)
  then have a: "accumulate DT5560 alternating_device 0 0 []
                  = Some (Inr (0xFFFFFFFF # replicate 1311 0, 2, 1))"
    by (simp add: wS)
  have "accumulate DT5560 alternating_device 1 0 []
          = Some (Inr (valid_words DT5560 alternating_device 1, 1 + 1, 0))"
    using accumulate_reaches_target_on_alternating_reads
            [where L = DT5560 and dev = alternating_device and calls = 1 and sleeps = 0,
             OF 1 2, THEN conjunct1]
    by (simp add: ew v1)
  then have b: "accumulate DT5560 alternating_device 1 0 []
                  = Some (Inr (0xFFFFFFFF # replicate 1311 0, 2, 0))"
    by (simp add: wS)
  show ?thesis using a b by (simp add: ew)
qed


lemma accumulate_same_reads:
  assumes run: "accumulate L dev c s raw = Some y"
    and same: "\<forall>k. valid (dev' k) = valid (dev k) \<and> delivered (dev' k) = delivered (dev k)"
  shows "accumulate L dev' c s raw = Some y"
proof -
  let ?P = "\<lambda>L dev c (s :: nat) raw (y :: error + u32 list \<times> nat \<times> nat).
              \<forall>dev'. (\<forall>k. valid (dev' k) = valid (dev k) \<and> delivered (dev' k) = delivered (dev k))
                \<longrightarrow> accumulate L dev' c s raw = Some y"
  have "?P L dev c s raw y"
  proof (rule accumulate.raw_induct [where P = ?P, OF _ run], goal_cases)
    case (1 acc L dev c s raw y)
    note IH = "1"(1) and body = "1"(2)
    show ?case
    proof (intro allI impI)
      fix dev' :: device
      assume same: "\<forall>k. valid (dev' k) = valid (dev k) \<and> delivered (dev' k) = delivered (dev k)"
      then have v: "valid (dev' c) = valid (dev c)" and d: "delivered (dev' c) = delivered (dev c)"
        by simp_all
      show "accumulate L dev' c s raw = Some y"
      proof (cases "length raw < EVENT_WORDS L")
        case False
        then show ?thesis using body by (simp add: accumulate_done)
      next
        case True
        note short = this
        show ?thesis
        proof (cases "valid (dev c) = 0")
          case True
          then have "acc L dev (c + 1) (s + 1) raw = Some y"
            using body short by simp
          from IH [OF this] same
          have "accumulate L dev' (c + 1) (s + 1) raw = Some y" by blast
          then show ?thesis using accumulate_empty_read [of raw L dev' c s] short True v by simp
        next
          case False
          note nonzero = this
          show ?thesis
          proof (cases "FIFO_CHUNK L < valid (dev c)")
            case True
            then have "y = Inl ValueError"
              using body short nonzero by (auto simp: frombuffer_def length_c_uint32_array)
            then show ?thesis
              using accumulate_overrun [of raw L dev' c s] short True v by simp
          next
            case False
            then have "acc L dev (c + 1) s (raw @ valid_words L dev c) = Some y"
              using body short nonzero
              by (simp add: frombuffer_def length_c_uint32_array valid_words_def Let_def)
            from IH [OF this] same
            have "accumulate L dev' (c + 1) s (raw @ valid_words L dev c) = Some y" by blast
            moreover have "valid_words L dev' c = valid_words L dev c"
              by (simp add: valid_words_def v d)
            ultimately show ?thesis
              using accumulate_read [of raw L dev' c s] short nonzero False v by simp
          qed
        qed
      qed
    qed
  qed
  with same show ?thesis by blast
qed

text \<open>
  Claim C2, as amended. The accumulator does not read the status code of
  \<^verbatim>\<open>ReadFifo\<close>: whatever codes the calls report, it behaves as with the codes of any
  other run that has the same valid counts and words. A call that fails is handled by
  its valid count alone: retried after the sleep when the count is zero, its words
  appended otherwise.
\<close>

theorem accumulate_ignores_status:
  "accumulate L (\<lambda>k. (dev k)\<lparr>err := e k\<rparr>) calls sleeps raw_words
     = accumulate L dev calls sleeps raw_words"
proof -
  let ?dev' = "\<lambda>k. (dev k)\<lparr>err := e k\<rparr>"
  have fwd: "accumulate L ?dev' calls sleeps raw_words = Some y"
    if "accumulate L dev calls sleeps raw_words = Some y" for y
    using that by (rule accumulate_same_reads) simp
  have bwd: "accumulate L dev calls sleeps raw_words = Some y"
    if "accumulate L ?dev' calls sleeps raw_words = Some y" for y
    using that by (rule accumulate_same_reads) simp
  show ?thesis
  proof (cases "accumulate L dev calls sleeps raw_words")
    case None
    then show ?thesis using bwd by (cases "accumulate L ?dev' calls sleeps raw_words") auto
  next
    case (Some y)
    then show ?thesis using fwd by simp
  qed
qed

lemma failing_device_data:
  "accumulate DT5560 failing_device 0 0 [] = Some (Inr (0xFFFFFFFF # replicate 1311 0, 2, 1))"
proof -
  have ew: "EVENT_WORDS DT5560 = 656" and chunk: "FIFO_CHUNK DT5560 = 1312"
    by (simp_all add: DT5560_def EVENT_WORDS_def FIFO_CHUNK_def)
  have w: "valid_words DT5560 failing_device k = 0xFFFFFFFF # replicate 1311 0" if "k \<noteq> 0" for k
    using that by (simp add: valid_words_def c_uint32_array_def chunk failing_device_def)
  have "accumulate DT5560 failing_device 0 0 [] = accumulate DT5560 failing_device (0 + 1) (0 + 1) []"
    by (rule accumulate_empty_read) (simp_all add: ew failing_device_def)
  also have "\<dots> = accumulate DT5560 failing_device (0 + 1 + 1) (0 + 1)
                      ([] @ valid_words DT5560 failing_device (0 + 1))"
    by (rule accumulate_read) (simp_all add: ew chunk failing_device_def)
  also have "\<dots> = Some (Inr ([] @ valid_words DT5560 failing_device (0 + 1), 0 + 1 + 1, 0 + 1))"
    by (rule accumulate_done) (simp add: w ew)
  finally show ?thesis by (simp add: w)
qed

text \<open>
  Claim C2 as stated fails: the first call of \<open>failing_device\<close> reports status \<open>-1\<close>,
  and the accumulator sleeps once, calls \<^verbatim>\<open>ReadFifo\<close> again and returns the words of
  the second call, in which the synchronizer finds an event.
\<close>

theorem transport_error_is_not_surfaced_counterexample:
  "err (failing_device 0) \<noteq> 0 \<and>
   accumulate DT5560 failing_device 0 0 [] = Some (Inr (0xFFFFFFFF # replicate 1311 0, 2, 1)) \<and>
   find_event DT5560 (0xFFFFFFFF # replicate 1311 0) = Inr (0xFFFFFFFF # replicate 655 0)"
proof -
  have "err (failing_device 0) \<noteq> 0" by (simp add: failing_device_def)
  moreover have "find_event DT5560 (0xFFFFFFFF # replicate 1311 0) = Inr (0xFFFFFFFF # replicate 655 0)"
    using find_event_first [of 0 "0xFFFFFFFF # replicate 1311 0" DT5560]
    by (simp add: DT5560_def EVENT_WORDS_def)
  ultimately show ?thesis using failing_device_data by blast
qed

theorem accumulate_ignores_status_witness:
  "accumulate DT5560 (\<lambda>k. (failing_device k)\<lparr>err := 0\<rparr>) 0 0 []
     = Some (Inr (0xFFFFFFFF # replicate 1311 0, 2, 1))"
  using accumulate_ignores_status
          [where L = DT5560 and dev = failing_device and e = "\<lambda>k. 0" and calls = 0 and sleeps = 0
             and raw_words = "[]"]
        failing_device_data
  by simp

end
